theory Spec2Isabelle
  imports Complex_Main "HOL-Library.Word" "HOL-Library.Sublist"
begin

unbundle bit_operations_syntax

section \<open>The format model of turbojpeg.h\<close>

subsection \<open>Pixel formats\<close>

text \<open>
  \<open>enum TJPF\<close>: the twelve pixel formats, numbered from 0 in the order of the
  declaration (\<open>TJPF_UNKNOWN = -1\<close> is not an index of the tables and is left out).
\<close>

datatype TJPF =
  TJPF_RGB | TJPF_BGR | TJPF_RGBX | TJPF_BGRX | TJPF_XBGR | TJPF_XRGB |
  TJPF_GRAY | TJPF_RGBA | TJPF_BGRA | TJPF_ABGR | TJPF_ARGB | TJPF_CMYK

definition TJ_NUMPF :: nat where
  "TJ_NUMPF = 12"

fun pf_index :: "TJPF \<Rightarrow> nat" where
  "pf_index TJPF_RGB = 0"
| "pf_index TJPF_BGR = 1"
| "pf_index TJPF_RGBX = 2"
| "pf_index TJPF_BGRX = 3"
| "pf_index TJPF_XBGR = 4"
| "pf_index TJPF_XRGB = 5"
| "pf_index TJPF_GRAY = 6"
| "pf_index TJPF_RGBA = 7"
| "pf_index TJPF_BGRA = 8"
| "pf_index TJPF_ABGR = 9"
| "pf_index TJPF_ARGB = 10"
| "pf_index TJPF_CMYK = 11"

text \<open>The five \<open>static const int\<close> tables, element by element.\<close>

definition tjRedOffset :: "int list" where
  "tjRedOffset = [0, 2, 0, 2, 3, 1, -1, 0, 2, 3, 1, -1]"

definition tjGreenOffset :: "int list" where
  "tjGreenOffset = [1, 1, 1, 1, 2, 2, -1, 1, 1, 2, 2, -1]"

definition tjBlueOffset :: "int list" where
  "tjBlueOffset = [2, 0, 2, 0, 1, 3, -1, 2, 0, 1, 3, -1]"

definition tjAlphaOffset :: "int list" where
  "tjAlphaOffset = [-1, -1, -1, -1, -1, -1, -1, 3, 3, 0, 0, -1]"

definition tjPixelSize :: "int list" where
  "tjPixelSize = [3, 3, 4, 4, 4, 4, 1, 4, 4, 4, 4, 4]"

text \<open>
  The bytes of one pixel, from the lowest address to the highest, as the comments of
  \<open>enum TJPF\<close> describe each format. \<open>CX\<close> is the ignored byte of the four-byte RGB
  formats, \<open>CY\<close> the luminance byte of \<open>TJPF_GRAY\<close>, \<open>CInk\<close> one of the four ink
  components of \<open>TJPF_CMYK\<close>.
\<close>

datatype component = CR | CG | CB | CA | CX | CY | CInk

fun pf_layout :: "TJPF \<Rightarrow> component list" where
  "pf_layout TJPF_RGB = [CR, CG, CB]"
| "pf_layout TJPF_BGR = [CB, CG, CR]"
| "pf_layout TJPF_RGBX = [CR, CG, CB, CX]"
| "pf_layout TJPF_BGRX = [CB, CG, CR, CX]"
| "pf_layout TJPF_XBGR = [CX, CB, CG, CR]"
| "pf_layout TJPF_XRGB = [CX, CR, CG, CB]"
| "pf_layout TJPF_GRAY = [CY]"
| "pf_layout TJPF_RGBA = [CR, CG, CB, CA]"
| "pf_layout TJPF_BGRA = [CB, CG, CR, CA]"
| "pf_layout TJPF_ABGR = [CA, CB, CG, CR]"
| "pf_layout TJPF_ARGB = [CA, CR, CG, CB]"
| "pf_layout TJPF_CMYK = [CInk, CInk, CInk, CInk]"

text \<open>The offset table of each of the four channels that have one.\<close>

fun offset_table :: "component \<Rightarrow> int list" where
  "offset_table CR = tjRedOffset"
| "offset_table CG = tjGreenOffset"
| "offset_table CB = tjBlueOffset"
| "offset_table CA = tjAlphaOffset"
| "offset_table _ = []"

definition offset_channels :: "component list" where
  "offset_channels = [CR, CG, CB, CA]"

text \<open>The number of the four offsets of format number \<open>i\<close> that are not the sentinel -1.\<close>

definition defined_offsets :: "nat \<Rightarrow> nat" where
  "defined_offsets i = length (filter (\<lambda>c. offset_table c ! i \<noteq> -1) offset_channels)"

subsection \<open>Chrominance subsampling\<close>

datatype TJSAMP =
  TJSAMP_444 | TJSAMP_422 | TJSAMP_420 | TJSAMP_GRAY | TJSAMP_440 | TJSAMP_411

definition TJ_NUMSAMP :: nat where
  "TJ_NUMSAMP = 6"

fun samp_index :: "TJSAMP \<Rightarrow> nat" where
  "samp_index TJSAMP_444 = 0"
| "samp_index TJSAMP_422 = 1"
| "samp_index TJSAMP_420 = 2"
| "samp_index TJSAMP_GRAY = 3"
| "samp_index TJSAMP_440 = 4"
| "samp_index TJSAMP_411 = 5"

fun samp_of_index :: "nat \<Rightarrow> TJSAMP option" where
  "samp_of_index i =
     (if i = 0 then Some TJSAMP_444 else if i = 1 then Some TJSAMP_422
      else if i = 2 then Some TJSAMP_420 else if i = 3 then Some TJSAMP_GRAY
      else if i = 4 then Some TJSAMP_440 else if i = 5 then Some TJSAMP_411
      else None)"

definition tjMCUWidth :: "int list" where
  "tjMCUWidth = [8, 16, 16, 8, 8, 32]"

definition tjMCUHeight :: "int list" where
  "tjMCUHeight = [8, 8, 16, 8, 16, 8]"

text \<open>
  The horizontal and vertical subsampling factors, as the header's notes on YUV images
  give them: horizontally 1 for 4:4:4, grayscale and 4:4:0, 2 for 4:2:2 and 4:2:0, 4 for
  4:1:1; vertically 1 for 4:4:4, 4:2:2, grayscale and 4:1:1, 2 for 4:2:0 and 4:4:0.
\<close>

fun h_factor :: "TJSAMP \<Rightarrow> int" where
  "h_factor TJSAMP_444 = 1"
| "h_factor TJSAMP_GRAY = 1"
| "h_factor TJSAMP_440 = 1"
| "h_factor TJSAMP_422 = 2"
| "h_factor TJSAMP_420 = 2"
| "h_factor TJSAMP_411 = 4"

fun v_factor :: "TJSAMP \<Rightarrow> int" where
  "v_factor TJSAMP_444 = 1"
| "v_factor TJSAMP_422 = 1"
| "v_factor TJSAMP_GRAY = 1"
| "v_factor TJSAMP_411 = 1"
| "v_factor TJSAMP_420 = 2"
| "v_factor TJSAMP_440 = 2"

text \<open>The iMCU sizes listed in the comment above the two tables, as (width, height).\<close>

fun documented_imcu :: "TJSAMP \<Rightarrow> int \<times> int" where
  "documented_imcu TJSAMP_444 = (8, 8)"
| "documented_imcu TJSAMP_GRAY = (8, 8)"
| "documented_imcu TJSAMP_422 = (16, 8)"
| "documented_imcu TJSAMP_440 = (8, 16)"
| "documented_imcu TJSAMP_420 = (16, 16)"
| "documented_imcu TJSAMP_411 = (32, 8)"

subsection \<open>The macros \<open>TJPAD\<close> and \<open>TJSCALED\<close>\<close>

text \<open>
  \<open>#define TJPAD(width) (((width) + 3) & (~3))\<close>, on the 32-bit \<open>int\<close> of the
  platforms the library builds on: the addition wraps, and \<open>sint\<close> reads the value.
\<close>

definition TJPAD :: "32 word \<Rightarrow> 32 word" where
  "TJPAD width = (width + 3) AND (NOT 3)"

text \<open>\<open>typedef struct { int num; int denom; } tjscalingfactor\<close>\<close>

record tjscalingfactor =
  num :: int
  denom :: int

text \<open>
  The division of C on \<open>int\<close> truncates towards zero, where \<open>div\<close> of HOL rounds
  down; dividing by zero is undefined in C and is left as the 0 of HOL.
\<close>

definition c_div :: "int \<Rightarrow> int \<Rightarrow> int" where
  "c_div a b = sgn a * sgn b * (\<bar>a\<bar> div \<bar>b\<bar>)"

text \<open>
  \<open>#define TJSCALED(dimension, scalingFactor)
     (((dimension) * scalingFactor.num + scalingFactor.denom - 1) / scalingFactor.denom)\<close>,
  on unbounded integers.
\<close>

definition TJSCALED :: "int \<Rightarrow> tjscalingfactor \<Rightarrow> int" where
  "TJSCALED dimension scalingFactor =
     c_div (dimension * num scalingFactor + denom scalingFactor - 1) (denom scalingFactor)"

subsection \<open>The selection of a scaling factor\<close>

text \<open>
  Modelled from the spec: the decompressor's selection of a scaling factor, which
  turbojpeg.h only documents (\<open>tjGetScalingFactors\<close> is declared there, its list and the
  selection loop are not in the header). The supported factors come as a list ordered
  largest-first, and the selected one is the largest factor whose scaled width does not
  exceed the requested width, that is the first one of the list that fits.
\<close>

definition sf_value :: "tjscalingfactor \<Rightarrow> rat" where
  "sf_value sf = of_int (num sf) / of_int (denom sf)"

definition largest_first :: "tjscalingfactor list \<Rightarrow> bool" where
  "largest_first sfs = sorted_wrt (\<lambda>a b. sf_value b < sf_value a) sfs"

definition select_scaling_factor ::
  "tjscalingfactor list \<Rightarrow> int \<Rightarrow> int \<Rightarrow> tjscalingfactor option" where
  "select_scaling_factor sfs dimension target =
     find (\<lambda>sf. TJSCALED dimension sf \<le> target) sfs"

text \<open>
  Modelled from the spec: the list the spec sketches as
  \<open>2/1, 15/8, 1/1, 7/8, ... 1/8\<close>, filled in as the sixteen factors \<open>n/8\<close> for
  \<open>n\<close> from 16 down to 1, each in lowest terms.
\<close>

definition eighths :: "tjscalingfactor list" where
  "eighths =
     [\<lparr>num = 2, denom = 1\<rparr>, \<lparr>num = 15, denom = 8\<rparr>, \<lparr>num = 7, denom = 4\<rparr>,
      \<lparr>num = 13, denom = 8\<rparr>, \<lparr>num = 3, denom = 2\<rparr>, \<lparr>num = 11, denom = 8\<rparr>,
      \<lparr>num = 5, denom = 4\<rparr>, \<lparr>num = 9, denom = 8\<rparr>, \<lparr>num = 1, denom = 1\<rparr>,
      \<lparr>num = 7, denom = 8\<rparr>, \<lparr>num = 3, denom = 4\<rparr>, \<lparr>num = 5, denom = 8\<rparr>,
      \<lparr>num = 1, denom = 2\<rparr>, \<lparr>num = 3, denom = 8\<rparr>, \<lparr>num = 1, denom = 4\<rparr>,
      \<lparr>num = 1, denom = 8\<rparr>]"

section \<open>The capability detector of simd/mips64/jsimdcpu.c\<close>

subsection \<open>C strings and the library calls the detector makes\<close>

text \<open>
  A C string is modelled by its contents, the characters before the terminating NUL.
  \<open>c_string\<close> reads the string that starts a byte buffer.
\<close>

definition NUL :: char where
  "NUL = CHR 0x00"

definition newline :: char where
  "newline = CHR 0x0A"

definition c_string :: "string \<Rightarrow> string" where
  "c_string bytes = takeWhile (\<lambda>c. c \<noteq> NUL) bytes"

text \<open>
  \<open>isspace\<close> in the C locale: space, \<open>\t\<close>, \<open>\n\<close>, \<open>\v\<close>, \<open>\f\<close> and \<open>\r\<close>.
  (The source hands it a plain \<open>char\<close>; for bytes above 127 the model answers no.)
\<close>

definition isspace :: "char \<Rightarrow> bool" where
  "isspace c = (c \<in> {CHR '' '', CHR 0x09, CHR 0x0A, CHR 0x0B, CHR 0x0C, CHR 0x0D})"

text \<open>
  \<open>strncmp(s1, s2, n) == 0\<close>: the first \<open>n\<close> characters agree, a string that ends
  earlier agreeing only with one that ends at the same place.
\<close>

definition strncmp_eq :: "string \<Rightarrow> string \<Rightarrow> nat \<Rightarrow> bool" where
  "strncmp_eq s1 s2 n = (take n s1 = take n s2)"

text \<open>
  \<open>strstr(haystack, needle)\<close>: the offset of the first occurrence of \<open>needle\<close>, or
  \<open>None\<close> for the null pointer.
\<close>

fun strstr :: "string \<Rightarrow> string \<Rightarrow> nat option" where
  "strstr [] needle = (if needle = [] then Some 0 else None)"
| "strstr (c # cs) needle =
     (if prefix needle (c # cs) then Some 0 else map_option Suc (strstr cs needle))"

subsection \<open>\<open>check_feature\<close>\<close>

text \<open>
  The \<open>while ((p = strstr(buffer, feature)))\<close> loop. The first argument is the string
  at the current value of the pointer \<open>buffer\<close>, so \<open>buffer++\<close> is \<open>tl\<close>; \<open>k\<close> is
  \<open>p - buffer\<close>. The test \<open>p > buffer && !isspace(*(p - 1))\<close> looks at the character
  before the match only when the match is not at \<open>buffer\<close> itself, and \<open>*p != 0\<close>
  after \<open>p += strlen(feature)\<close> says that the match does not end the string.
\<close>

function find_word :: "string \<Rightarrow> string \<Rightarrow> bool" where
  "find_word buffer feature =
     (case strstr buffer feature of
        None \<Rightarrow> False
      | Some k \<Rightarrow>
          if 0 < k \<and> \<not> isspace (buffer ! (k - 1)) then find_word (tl buffer) feature
          else if k + length feature < length buffer
                  \<and> \<not> isspace (buffer ! (k + length feature))
          then find_word (tl buffer) feature
          else True)"
  by pat_completeness auto
termination
proof (relation "measure (\<lambda>(buffer, feature). length buffer)")
  have bound: "k \<le> length h" if "strstr h n = Some k" for h n k
    using that by (induction h arbitrary: k) (auto split: if_splits)
  fix buffer feature :: string and k :: nat
  assume found: "strstr buffer feature = Some k"
  {
    assume "0 < k \<and> \<not> isspace (buffer ! (k - 1))"
    with bound [OF found] have "buffer \<noteq> []" by auto
    then show "((tl buffer, feature), (buffer, feature))
                 \<in> measure (\<lambda>(buffer, feature). length buffer)"
      by (cases buffer) simp_all
  }
  {
    assume "k + length feature < length buffer
              \<and> \<not> isspace (buffer ! (k + length feature))"
    then have "buffer \<noteq> []" by auto
    then show "((tl buffer, feature), (buffer, feature))
                 \<in> measure (\<lambda>(buffer, feature). length buffer)"
      by (cases buffer) simp_all
  }
qed simp

declare find_word.simps [simp del]

definition check_feature :: "string \<Rightarrow> string \<Rightarrow> bool" where
  "check_feature buffer feature =
     (if feature = [] then False
      else if \<not> strncmp_eq buffer ''ASEs implemented'' 16 then False
      else find_word (dropWhile isspace (drop 16 buffer)) feature)"

text \<open>
  The reading of the specification: \<open>word\<close> occurs in \<open>text\<close> at some offset \<open>i\<close>
  with no non-space character just before it and none just after it.
\<close>

definition whole_word_at :: "string \<Rightarrow> string \<Rightarrow> nat \<Rightarrow> bool" where
  "whole_word_at text word i =
     (take (length word) (drop i text) = word
      \<and> i + length word \<le> length text
      \<and> (i = 0 \<or> isspace (text ! (i - 1)))
      \<and> (i + length word = length text \<or> isspace (text ! (i + length word))))"

definition occurs_as_whole_word :: "string \<Rightarrow> string \<Rightarrow> bool" where
  "occurs_as_whole_word text word =
     list_ex (whole_word_at text word) [0..<Suc (length text)]"

definition spec_check_feature :: "string \<Rightarrow> string \<Rightarrow> bool" where
  "spec_check_feature line word =
     (take 16 line = ''ASEs implemented'' \<and> occurs_as_whole_word (drop 16 line) word)"

text \<open>
  What the loop of \<open>check_feature\<close> turns out to test: \<open>word\<close> occurs in \<open>text\<close>
  at some offset and is followed there by a space or by the end of the string. Nothing
  is asked of the character before it.
\<close>

definition ends_word_at :: "string \<Rightarrow> string \<Rightarrow> nat \<Rightarrow> bool" where
  "ends_word_at text word i =
     (prefix word (drop i text)
      \<and> (i + length word = length text
          \<or> (i + length word < length text \<and> isspace (text ! (i + length word)))))"

definition occurs_ending_word :: "string \<Rightarrow> string \<Rightarrow> bool" where
  "occurs_ending_word text word = list_ex (ends_word_at text word) [0..<Suc (length text)]"

subsection \<open>\<open>parse_proc_cpuinfo\<close> and \<open>jpeg_simd_cpu_support\<close>\<close>

text \<open>
  What the detector sees of the system: the bytes of \<open>/proc/cpuinfo\<close>, or \<open>None\<close>
  when \<open>fopen\<close> returns the null pointer, and the buffer sizes at which \<open>malloc\<close>
  returns the null pointer.
\<close>

record proc_env =
  cpuinfo :: "string option"
  malloc_fails :: "nat set"

text \<open>An open stream: the bytes not read yet and the end-of-file indicator.\<close>

record stream =
  unread :: string
  at_eof :: bool

text \<open>
  The characters one \<open>fgets\<close> stores: at most \<open>k\<close> of them, up to and including the
  first newline.
\<close>

fun read_line :: "nat \<Rightarrow> string \<Rightarrow> string" where
  "read_line 0 cs = []"
| "read_line (Suc k) [] = []"
| "read_line (Suc k) (c # cs) = (if c = newline then [c] else c # read_line k cs)"

text \<open>
  \<open>fgets(buffer, n, fd)\<close> stores at most \<open>n - 1\<close> characters. The end-of-file
  indicator is set when the read ran into the end of the file, which is when it stopped
  short of \<open>n - 1\<close> characters without a newline; the result is the null pointer when
  that happens before any character is stored. Read errors are not modelled.
\<close>

definition fgets :: "nat \<Rightarrow> stream \<Rightarrow> string option \<times> stream" where
  "fgets n fd =
     (let line = read_line (n - 1) (unread fd);
          hit_end = (length line < n - 1 \<and> newline \<notin> set line);
          fd' = \<lparr>unread = drop (length line) (unread fd), at_eof = (at_eof fd \<or> hit_end)\<rparr>
      in (if line = [] \<and> hit_end then None else Some line, fd'))"

text \<open>
  \<open>JSIMD_MMI\<close> comes from simd/jsimd.h, and is a parameter \<open>mmi\<close> of the model.

  The \<open>while (fgets(buffer, bufsize, fd))\<close> loop of \<open>parse_proc_cpuinfo\<close>, with the
  mask \<open>*simd_support\<close> passed along. With a buffer of one byte \<open>fgets\<close> stores
  nothing and the loop of the source does not end, hence the option type.
\<close>

partial_function (option) read_lines ::
  "32 word \<Rightarrow> nat \<Rightarrow> stream \<Rightarrow> 32 word \<Rightarrow> (bool \<times> 32 word) option" where
  "read_lines mmi bufsize fd simd_support =
     (case fgets bufsize fd of
        (None, fd') \<Rightarrow> Some (True, simd_support)
      | (Some buffer, fd') \<Rightarrow>
          if newline \<notin> set (c_string buffer) \<and> \<not> at_eof fd'
          then Some (False, simd_support)
          else read_lines mmi bufsize fd'
                 (if check_feature (c_string buffer) ''loongson-mmi''
                  then simd_support OR mmi else simd_support))"

text \<open>
  \<open>parse_proc_cpuinfo(bufsize, &simd_support)\<close>: \<open>bufsize\<close> is a natural number,
  the sizes the caller passes being 1024 to 1048576; the last argument is the value of
  \<open>*simd_support\<close> at the call, the result the returned boolean and the value of
  \<open>*simd_support\<close> at the return.
\<close>

definition parse_proc_cpuinfo ::
  "32 word \<Rightarrow> proc_env \<Rightarrow> nat \<Rightarrow> 32 word \<Rightarrow> (bool \<times> 32 word) option" where
  "parse_proc_cpuinfo mmi env bufsize simd_support_in =
     (let simd_support = 0 in
      if bufsize \<in> malloc_fails env then Some (False, simd_support)
      else case cpuinfo env of
             None \<Rightarrow> Some (True, simd_support)
           | Some bytes \<Rightarrow>
               read_lines mmi bufsize \<lparr>unread = bytes, at_eof = False\<rparr> simd_support)"

definition SOMEWHAT_SANE_PROC_CPUINFO_SIZE_LIMIT :: nat where
  "SOMEWHAT_SANE_PROC_CPUINFO_SIZE_LIMIT = 1024 * 1024"

text \<open>
  The \<open>while (!parse_proc_cpuinfo(bufsize, &simd_support))\<close> loop of
  \<open>jpeg_simd_cpu_support\<close>.
\<close>

partial_function (option) retry_loop ::
  "32 word \<Rightarrow> proc_env \<Rightarrow> nat \<Rightarrow> 32 word \<Rightarrow> 32 word option" where
  "retry_loop mmi env bufsize simd_support =
     (case parse_proc_cpuinfo mmi env bufsize simd_support of
        None \<Rightarrow> None
      | Some (parsed, simd_support') \<Rightarrow>
          if parsed then Some simd_support'
          else if bufsize * 2 > SOMEWHAT_SANE_PROC_CPUINFO_SIZE_LIMIT then Some simd_support'
          else retry_loop mmi env (bufsize * 2) simd_support')"

text \<open>
  The three ways the preprocessor builds \<open>jpeg_simd_cpu_support\<close>: with
  \<open>__mips_loongson_vector_rev\<close> defined, without it on Linux, and anywhere else.
\<close>

datatype build = Loongson_vector_rev | Linux | Other_platform

fun jpeg_simd_cpu_support :: "32 word \<Rightarrow> build \<Rightarrow> proc_env \<Rightarrow> 32 word option" where
  "jpeg_simd_cpu_support mmi Loongson_vector_rev env = Some (0 OR mmi)"
| "jpeg_simd_cpu_support mmi Linux env = retry_loop mmi env 1024 0"
| "jpeg_simd_cpu_support mmi Other_platform env = Some 0"

text \<open>An attempt at one buffer size fails: \<open>parse_proc_cpuinfo\<close> returns \<open>FALSE\<close>.\<close>

definition attempt_fails :: "32 word \<Rightarrow> proc_env \<Rightarrow> nat \<Rightarrow> bool" where
  "attempt_fails mmi env bufsize =
     (map_option fst (parse_proc_cpuinfo mmi env bufsize 0) = Some False)"

text \<open>
  Four descriptions of a system for the examples below: no \<open>/proc/cpuinfo\<close> that can
  be opened; a \<open>/proc/cpuinfo\<close> that is one line of 1048576 characters with no
  newline; one that has the feature line first and then such a line; and the last one
  again, where \<open>malloc\<close> fails for every size but 1024 (it never fails in the others).
\<close>

definition no_cpuinfo_env :: proc_env where
  "no_cpuinfo_env = \<lparr>cpuinfo = None, malloc_fails = {}\<rparr>"

definition long_line_env :: proc_env where
  "long_line_env =
     \<lparr>cpuinfo = Some (replicate 1048576 CHR ''x''), malloc_fails = {}\<rparr>"

definition feature_then_long_line_env :: proc_env where
  "feature_then_long_line_env =
     \<lparr>cpuinfo = Some (''ASEs implemented: loongson-mmi'' @ newline # replicate 1048576 CHR ''x''),
      malloc_fails = {}\<rparr>"

definition scarce_memory_env :: proc_env where
  "scarce_memory_env =
     \<lparr>cpuinfo = Some (''ASEs implemented: loongson-mmi'' @ newline # replicate 1048576 CHR ''x''),
      malloc_fails = - {1024}\<rparr>"

section \<open>Properties of the format model\<close>

text \<open>
  C4. For every subsampling index \<open>i\<close> in 0..5, \<open>tjMCUWidth[i]\<close> is 8 times the
  horizontal factor of that mode and \<open>tjMCUHeight[i]\<close> is 8 times its vertical factor,
  and the pair is the documented iMCU size: 8x8 for 4:4:4 and grayscale, 16x8 for 4:2:2,
  8x16 for 4:4:0, 16x16 for 4:2:0 and 32x8 for 4:1:1.
\<close>

theorem tjMCU_tables_eight_times_factor:
  assumes "i < TJ_NUMSAMP"
  shows "\<exists>s. samp_of_index i = Some s \<and> samp_index s = i
           \<and> tjMCUWidth ! i = 8 * h_factor s
           \<and> tjMCUHeight ! i = 8 * v_factor s
           \<and> (tjMCUWidth ! i, tjMCUHeight ! i) = documented_imcu s"
proof -
  from assms have "i = 0 \<or> i = 1 \<or> i = 2 \<or> i = 3 \<or> i = 4 \<or> i = 5"
    unfolding TJ_NUMSAMP_def by arith
  then show ?thesis
    by (elim disjE) (simp_all add: tjMCUWidth_def tjMCUHeight_def)
qed

theorem tjMCU_tables_eight_times_factor_witness:
  "(5::nat) < TJ_NUMSAMP
   \<and> (\<exists>s. samp_of_index 5 = Some s \<and> samp_index s = 5
           \<and> tjMCUWidth ! 5 = 8 * h_factor s
           \<and> tjMCUHeight ! 5 = 8 * v_factor s
           \<and> (tjMCUWidth ! 5, tjMCUHeight ! 5) = documented_imcu s)
   \<and> tjMCUWidth ! 5 = 32 \<and> tjMCUHeight ! 5 = 8"
proof -
  have h: "(5::nat) < TJ_NUMSAMP" by (simp add: TJ_NUMSAMP_def)
  show ?thesis
    using h tjMCU_tables_eight_times_factor [OF h]
    by (simp add: tjMCUWidth_def tjMCUHeight_def)
qed

text \<open>
  C3, as stated, fails: \<open>TJPF_RGBX\<close> has four bytes per pixel and only three defined
  offsets (its fourth byte is the ignored X component, which has no offset table).
\<close>

theorem tjPixelSize_RGBX_counterexample:
  "tjPixelSize ! pf_index TJPF_RGBX \<noteq> int (defined_offsets (pf_index TJPF_RGBX))"
  by (simp add: tjPixelSize_def defined_offsets_def offset_channels_def
      tjRedOffset_def tjGreenOffset_def tjBlueOffset_def tjAlphaOffset_def)

text \<open>
  C3, amended. For each of the 12 pixel formats \<open>f\<close>: \<open>tjPixelSize[f]\<close> is the number
  of bytes of the documented layout; the number of defined offsets among red, green,
  blue and alpha is at most \<open>tjPixelSize[f]\<close>, and equal to it exactly when every byte
  of the format is a red, green, blue or alpha component; every defined offset is
  non-negative, strictly less than \<open>tjPixelSize[f]\<close> and points at its channel's byte;
  and every channel the format lacks has the sentinel offset -1.
\<close>

theorem tjPixelSize_bounds_defined_offsets:
  "pf_index f < TJ_NUMPF
   \<and> tjPixelSize ! pf_index f = int (length (pf_layout f))
   \<and> int (defined_offsets (pf_index f)) \<le> tjPixelSize ! pf_index f
   \<and> (int (defined_offsets (pf_index f)) = tjPixelSize ! pf_index f
        \<longleftrightarrow> set (pf_layout f) \<subseteq> set offset_channels)
   \<and> (\<forall>c \<in> set offset_channels.
         if c \<in> set (pf_layout f)
         then 0 \<le> offset_table c ! pf_index f
              \<and> offset_table c ! pf_index f < tjPixelSize ! pf_index f
              \<and> pf_layout f ! nat (offset_table c ! pf_index f) = c
         else offset_table c ! pf_index f = -1)"
  by (cases f)
     (simp_all add: TJ_NUMPF_def tjPixelSize_def defined_offsets_def offset_channels_def
        tjRedOffset_def tjGreenOffset_def tjBlueOffset_def tjAlphaOffset_def)

theorem tjPixelSize_bounds_defined_offsets_witness:
  "defined_offsets (pf_index TJPF_XBGR) = 3 \<and> tjPixelSize ! pf_index TJPF_XBGR = 4
   \<and> CR \<in> set offset_channels \<and> CR \<in> set (pf_layout TJPF_XBGR)
   \<and> offset_table CR ! pf_index TJPF_XBGR = 3
   \<and> pf_layout TJPF_XBGR ! nat (offset_table CR ! pf_index TJPF_XBGR) = CR
   \<and> CA \<in> set offset_channels \<and> CA \<notin> set (pf_layout TJPF_XBGR)
   \<and> offset_table CA ! pf_index TJPF_XBGR = -1"
  using tjPixelSize_bounds_defined_offsets [of TJPF_XBGR]
  by (simp add: tjPixelSize_def defined_offsets_def offset_channels_def
      tjRedOffset_def tjGreenOffset_def tjBlueOffset_def tjAlphaOffset_def)

lemma c_div_nonneg: "0 \<le> a \<Longrightarrow> 0 < b \<Longrightarrow> c_div a b = a div b"
  by (simp add: c_div_def sgn_if)

lemma round_up_div: 
  fixes a d :: int assumes "0 < d"
  shows "(a + d - 1) div d = - ((- a) div d)"
proof -
  define q r where "q = a div d" and "r = a mod d"
  have a: "a = q * d + r" and r: "0 \<le> r" "r < d"
    using assms by (simp_all add: q_def r_def)
  have d: "d \<noteq> 0" using assms by simp
  have "(a + d - 1) div d = (q * d + (r + d - 1)) div d"
    by (simp add: a algebra_simps)
  also have "\<dots> = q + (r + d - 1) div d"
    using d by (rule div_mult_self3)
  finally have lhs: "(a + d - 1) div d = q + (r + d - 1) div d" .
  show ?thesis
  proof (cases "r = 0")
    case True
    with assms have "(r + d - 1) div d = 0" by (simp add: div_pos_pos_trivial)
    with lhs True d show ?thesis
      by (simp add: zdiv_zminus1_eq_if q_def r_def)
  next
    case False
    have "(r + d - 1) div d = (1 * d + (r - 1)) div d" by (simp add: algebra_simps)
    also have "\<dots> = 1 + (r - 1) div d" using d by (rule div_mult_self3)
    also have "\<dots> = 1" using r False by (simp add: div_pos_pos_trivial)
    finally show ?thesis using lhs False d
      by (simp add: zdiv_zminus1_eq_if q_def r_def)
  qed
qed

lemma Suc_Suc_diff_2: "2 \<le> n \<Longrightarrow> Suc (Suc (n - 2)) = n"
  by arith

lemma and_not_mask_2: "(x::32 word) AND NOT (mask 2) = push_bit 2 (drop_bit 2 x)"
  by (rule bit_eqI) (auto simp: bit_simps Suc_Suc_diff_2 not_less)

lemma uint_and_not_3: "uint ((x::32 word) AND NOT 3) = uint x - uint x mod 4"
proof -
  have b: "0 \<le> uint x" "uint x < 2 ^ 32" using uint_bounded [of x] by simp_all
  then have t: "take_bit LENGTH(32) (uint x) = uint x"
    by (simp add: take_bit_int_eq_self)
  have m: "NOT (3::32 word) = NOT (mask 2)" by (simp add: mask_eq_exp_minus_1)
  have "uint (x AND NOT (mask 2)) = uint (push_bit 2 (drop_bit 2 x))"
    by (simp only: and_not_mask_2)
  also have "\<dots> = take_bit LENGTH(32) (push_bit 2 (drop_bit 2 (take_bit LENGTH(32) (uint x))))"
    by (simp only: unsigned_push_bit_eq unsigned_drop_bit_eq)
  also have "\<dots> = take_bit 32 (4 * (uint x div 4))"
    by (simp only: t) (simp add: push_bit_eq_mult drop_bit_eq_div mult.commute)
  also have "\<dots> = 4 * (uint x div 4)"
  proof (rule take_bit_int_eq_self)
    show "0 \<le> 4 * (uint x div 4)" using b by presburger
    show "4 * (uint x div 4) < 2 ^ 32" using b by presburger
  qed
  finally show ?thesis by (simp only: m) (simp add: minus_mod_eq_mult_div)
qed

lemma sint_TJPAD:
  assumes "0 \<le> sint w" and "sint w + 3 < 2 ^ 31"
  shows "sint (TJPAD w) = (sint w + 3) - (sint w + 3) mod 4"
proof -
  have uw: "uint w = sint w"
    using assms by (simp add: uint_sint take_bit_int_eq_self)
  have "uint w + uint (3::32 word) < 2 ^ LENGTH(32)" using assms uw by simp
  then have u3: "uint (w + 3) = uint w + 3"
    using uint_add_lem [of w 3] by simp
  have up: "uint (TJPAD w) = (sint w + 3) - (sint w + 3) mod 4"
    unfolding TJPAD_def by (simp only: uint_and_not_3 u3 uw)
  have "0 \<le> uint (TJPAD w)" by simp
  moreover have "uint (TJPAD w) < 2 ^ 31"
  proof -
    have "0 \<le> (sint w + 3) mod 4" by simp
    with up assms show ?thesis by linarith
  qed
  ultimately have "signed_take_bit 31 (uint (TJPAD w)) = uint (TJPAD w)"
    by (intro signed_take_bit_int_eq_self) linarith+
  then show ?thesis using up by (simp add: sint_uint)
qed

text \<open>
  C10. For every width \<open>\<ge> 0\<close> such that \<open>width + 3\<close> does not overflow the 32-bit
  \<open>int\<close>, \<open>TJPAD(width)\<close> is the smallest multiple of 4 that is greater than or equal
  to \<open>width\<close>.
\<close>

theorem TJPAD_smallest_multiple_of_4:
  assumes "0 \<le> sint width" and "sint width + 3 \<le> 2 ^ 31 - 1"
  shows "sint (TJPAD width) mod 4 = 0
         \<and> sint width \<le> sint (TJPAD width)
         \<and> (\<forall>m. m mod 4 = 0 \<and> sint width \<le> m \<longrightarrow> sint (TJPAD width) \<le> m)"
proof -
  from assms have "sint (TJPAD width) = (sint width + 3) - (sint width + 3) mod 4"
    by (intro sint_TJPAD) auto
  then show ?thesis by presburger
qed

theorem TJPAD_smallest_multiple_of_4_witness:
  "0 \<le> sint (13 :: 32 word) \<and> sint (13 :: 32 word) + 3 \<le> 2 ^ 31 - 1
   \<and> sint (TJPAD 13) mod 4 = 0 \<and> sint (13 :: 32 word) \<le> sint (TJPAD 13)
   \<and> TJPAD 13 = 16"
proof -
  have h1: "0 \<le> sint (13 :: 32 word)" and h2: "sint (13 :: 32 word) + 3 \<le> 2 ^ 31 - 1"
    by simp_all
  show ?thesis
    using h1 h2 TJPAD_smallest_multiple_of_4 [OF h1 h2] by (simp add: TJPAD_def)
qed

lemma TJSCALED_round_up:
  assumes "0 \<le> dimension" and "1 \<le> num sf" and "1 \<le> denom sf"
  shows "TJSCALED dimension sf = - ((- (dimension * num sf)) div denom sf)"
proof -
  have "0 \<le> dimension * num sf" using assms by simp
  with assms have "0 \<le> dimension * num sf + denom sf - 1" by linarith
  then have "TJSCALED dimension sf = (dimension * num sf + denom sf - 1) div denom sf"
    using assms by (simp add: TJSCALED_def c_div_nonneg)
  also have "\<dots> = - ((- (dimension * num sf)) div denom sf)"
    using assms by (intro round_up_div) auto
  finally show ?thesis .
qed

text \<open>
  C5. For every dimension \<open>\<ge> 0\<close> and every scaling factor with numerator \<open>\<ge> 1\<close> and
  denominator \<open>\<ge> 1\<close>, on exact integers, \<open>TJSCALED(dimension, scalingFactor)\<close> is the
  ceiling of \<open>dimension * num / denom\<close>.
\<close>

theorem TJSCALED_is_ceiling:
  assumes "0 \<le> dimension" and "1 \<le> num sf" and "1 \<le> denom sf"
  shows "TJSCALED dimension sf
         = \<lceil>real_of_int (dimension * num sf) / real_of_int (denom sf)\<rceil>"
  using TJSCALED_round_up [OF assms] by (simp only: ceiling_divide_eq_div)

theorem TJSCALED_is_ceiling_witness:
  "(0::int) \<le> 100 \<and> 1 \<le> num \<lparr>num = 5, denom = 8\<rparr> \<and> 1 \<le> denom \<lparr>num = 5, denom = 8\<rparr>
   \<and> TJSCALED 100 \<lparr>num = 5, denom = 8\<rparr> = \<lceil>real_of_int (100 * 5) / real_of_int 8\<rceil>
   \<and> TJSCALED 100 \<lparr>num = 5, denom = 8\<rparr> = 63"
proof -
  have h1: "(0::int) \<le> 100" and h2: "1 \<le> num \<lparr>num = 5, denom = 8\<rparr>"
    and h3: "1 \<le> denom \<lparr>num = 5, denom = 8\<rparr>" by simp_all
  have "TJSCALED 100 \<lparr>num = 5, denom = 8\<rparr> = 63"
    by (simp add: TJSCALED_def c_div_def)
  then show ?thesis
    using h1 h2 h3 TJSCALED_is_ceiling [OF h1 h2 h3] by simp
qed

lemma TJSCALED_100_fits_60:
  assumes "1 \<le> num sf" and "1 \<le> denom sf" and "TJSCALED 100 sf \<le> 60"
  shows "5 * num sf \<le> 3 * denom sf"
proof -
  define n d where "n = num sf" and "d = denom sf"
  have d: "0 < d" using assms by (simp add: d_def)
  have "0 \<le> 100 * n + d - 1" using assms by (simp add: n_def d_def)
  then have "TJSCALED 100 sf = (100 * n + d - 1) div d"
    using d by (simp add: TJSCALED_def c_div_nonneg n_def d_def)
  with assms have q: "(100 * n + d - 1) div d \<le> 60" by simp
  have "100 * n + d - 1 = d * ((100 * n + d - 1) div d) + (100 * n + d - 1) mod d"
    by simp
  moreover have "(100 * n + d - 1) mod d < d" using d by simp
  moreover have "d * ((100 * n + d - 1) div d) \<le> d * 60"
    using d q by (intro mult_left_mono) auto
  ultimately have "100 * n + d - 1 < d * 60 + d" by linarith
  then show ?thesis unfolding n_def d_def by linarith
qed

lemma sf_value_gt_iff:
  assumes "1 \<le> denom sf" and "0 < q"
  shows "of_int p / of_int q < sf_value sf \<longleftrightarrow> p * denom sf < q * num sf"
proof -
  have d: "(0::rat) < of_int (denom sf)" and q: "(0::rat) < of_int q" using assms by simp_all
  have "of_int p / of_int q < sf_value sf
        \<longleftrightarrow> (of_int p :: rat) * of_int (denom sf) < of_int (num sf) * of_int q"
    unfolding sf_value_def using d q by (simp add: divide_less_eq less_divide_eq mult.commute)
  also have "\<dots> \<longleftrightarrow> (of_int (p * denom sf) :: rat) < of_int (q * num sf)"
    by (simp add: mult.commute)
  also have "\<dots> \<longleftrightarrow> p * denom sf < q * num sf"
    by (simp only: of_int_less_iff)
  finally show ?thesis .
qed

lemma find_skip_rejected:
  assumes "\<forall>x \<in> set pre. \<not> P x"
  shows "find P (pre @ rest) = find P rest"
  using assms by (induction pre) simp_all

text \<open>
  C6. Whatever the decoder's list of supported factors is, as long as it is ordered
  largest-first, its factors have numerator and denominator \<open>\<ge> 1\<close>, and 5/8 is the
  factor next above 1/2 in it: for a native dimension of 100 and a requested width of 60
  the selection yields the factor 1/2, with scaled width 50; 5/8 scales 100 to 63 and
  does not qualify; and no factor of the list larger than 1/2 qualifies.
\<close>

theorem select_scaling_factor_100_60:
  assumes "sfs = pre @ [\<lparr>num = 5, denom = 8\<rparr>, \<lparr>num = 1, denom = 2\<rparr>] @ post"
    and "largest_first sfs"
    and "\<forall>sf \<in> set sfs. 1 \<le> num sf \<and> 1 \<le> denom sf"
  shows "select_scaling_factor sfs 100 60 = Some \<lparr>num = 1, denom = 2\<rparr>
         \<and> TJSCALED 100 \<lparr>num = 1, denom = 2\<rparr> = 50
         \<and> TJSCALED 100 \<lparr>num = 5, denom = 8\<rparr> = 63
         \<and> \<not> TJSCALED 100 \<lparr>num = 5, denom = 8\<rparr> \<le> 60
         \<and> (\<forall>sf \<in> set sfs. TJSCALED 100 sf \<le> 60
               \<longrightarrow> sf_value sf \<le> sf_value \<lparr>num = 1, denom = 2\<rparr>)"
proof -
  let ?a = "\<lparr>num = 5, denom = 8\<rparr>" and ?b = "\<lparr>num = 1, denom = 2\<rparr>"
  have half: "TJSCALED 100 ?b = 50" and five: "TJSCALED 100 ?a = 63"
    by (simp_all add: TJSCALED_def c_div_def)
  have va: "sf_value ?a = 5 / 8" and vb: "sf_value ?b = 1 / 2"
    by (simp_all add: sf_value_def)
  have sorted: "sorted_wrt (\<lambda>x y. sf_value y < sf_value x) (pre @ [?a, ?b] @ post)"
    using assms(1,2) by (simp add: largest_first_def)
  have above: "sf_value ?a < sf_value x" if "x \<in> set pre" for x
    using sorted that by (auto simp: sorted_wrt_append)
  have below: "sf_value x < sf_value ?b" if "x \<in> set post" for x
    using sorted that by (auto simp: sorted_wrt_append)
  have rejected: "\<not> TJSCALED 100 x \<le> 60" if "x \<in> set pre" for x
  proof
    assume fits: "TJSCALED 100 x \<le> 60"
    from that assms(1,3) have pos: "1 \<le> num x" "1 \<le> denom x" by auto
    have gt: "of_int 5 / of_int 8 < sf_value x \<longleftrightarrow> 5 * denom x < 8 * num x"
      using pos by (intro sf_value_gt_iff) auto
    from above [OF that] have "of_int 5 / of_int 8 < sf_value x" by (simp add: va)
    with gt have "5 * denom x < 8 * num x" by (rule iffD1)
    moreover from TJSCALED_100_fits_60 [OF pos fits] have "5 * num x \<le> 3 * denom x" .
    ultimately show False using pos by linarith
  qed
  have "select_scaling_factor sfs 100 60
        = find (\<lambda>sf. TJSCALED 100 sf \<le> 60) ([?a, ?b] @ post)"
    unfolding select_scaling_factor_def assms(1)
    by (rule find_skip_rejected) (use rejected in blast)
  also have "\<dots> = Some ?b" by (simp add: half five)
  finally have sel: "select_scaling_factor sfs 100 60 = Some ?b" .
  have largest: "sf_value x \<le> sf_value ?b" if "x \<in> set sfs" "TJSCALED 100 x \<le> 60" for x
  proof -
    from that(1) assms(1) have "x \<in> set pre \<or> x = ?a \<or> x = ?b \<or> x \<in> set post" by auto
    then show ?thesis
      using rejected that(2) five below by (auto simp: less_imp_le)
  qed
  show ?thesis using sel half five largest by simp
qed

theorem select_scaling_factor_100_60_witness:
  "eighths = take 11 eighths @ [\<lparr>num = 5, denom = 8\<rparr>, \<lparr>num = 1, denom = 2\<rparr>] @ drop 13 eighths
   \<and> largest_first eighths
   \<and> list_all (\<lambda>sf. 1 \<le> num sf \<and> 1 \<le> denom sf) eighths
   \<and> select_scaling_factor eighths 100 60 = Some \<lparr>num = 1, denom = 2\<rparr>
   \<and> TJSCALED 100 \<lparr>num = 1, denom = 2\<rparr> = 50
   \<and> TJSCALED 100 \<lparr>num = 5, denom = 8\<rparr> = 63"
proof -
  have h1: "eighths
            = take 11 eighths @ [\<lparr>num = 5, denom = 8\<rparr>, \<lparr>num = 1, denom = 2\<rparr>] @ drop 13 eighths"
    by (simp add: eighths_def)
  have h2: "largest_first eighths"
    by (simp add: eighths_def largest_first_def sf_value_def)
  have h3: "\<forall>sf \<in> set eighths. 1 \<le> num sf \<and> 1 \<le> denom sf"
    by (simp add: eighths_def)
  have h3': "list_all (\<lambda>sf. 1 \<le> num sf \<and> 1 \<le> denom sf) eighths"
    by (simp add: eighths_def)
  from select_scaling_factor_100_60 [OF h1 h2 h3] h1 h2 h3' show ?thesis
    by blast
qed

section \<open>Properties of the capability detector\<close>

subsection \<open>The word boundary test of \<open>check_feature\<close>\<close>

lemma strstr_Some:
  "strstr h n = Some k \<Longrightarrow> prefix n (drop k h) \<and> k \<le> length h \<and> (\<forall>j<k. \<not> prefix n (drop j h))"
proof (induction h arbitrary: k)
  case Nil
  then show ?case by (simp split: if_splits)
next
  case (Cons c cs)
  show ?case
  proof (cases "prefix n (c # cs)")
    case True
    with Cons.prems show ?thesis by simp
  next
    case False
    with Cons.prems obtain k' where k': "strstr cs n = Some k'" and k: "k = Suc k'"
      by auto
    from Cons.IH [OF k'] have ih: "prefix n (drop k' cs)" "k' \<le> length cs"
      "\<forall>j<k'. \<not> prefix n (drop j cs)" by simp_all
    have "\<not> prefix n (drop j (c # cs))" if "j < Suc k'" for j
      using that False ih(3) by (cases j) simp_all
    with ih k show ?thesis by simp
  qed
qed

lemma strstr_None: "strstr h n = None \<Longrightarrow> \<not> prefix n (drop j h)"
proof (induction h arbitrary: j)
  case Nil
  then show ?case by (simp split: if_splits)
next
  case (Cons c cs)
  then show ?case by (cases j) (auto split: if_splits)
qed

lemma ends_word_at_Cons:
  "ends_word_at (c # cs) word (Suc i) = ends_word_at cs word i"
  by (simp add: ends_word_at_def)

lemma occurs_ending_word_iff:
  "occurs_ending_word text word \<longleftrightarrow> (\<exists>i\<le>length text. ends_word_at text word i)"
  by (auto simp: occurs_ending_word_def list_ex_iff less_Suc_eq_le simp del: upt_Suc)

lemma occurs_ending_word_Cons:
  "occurs_ending_word (c # cs) word
   \<longleftrightarrow> ends_word_at (c # cs) word 0 \<or> occurs_ending_word cs word"
proof
  assume "occurs_ending_word (c # cs) word"
  then obtain i where i: "i \<le> length (c # cs)" "ends_word_at (c # cs) word i"
    by (auto simp: occurs_ending_word_iff)
  show "ends_word_at (c # cs) word 0 \<or> occurs_ending_word cs word"
  proof (cases i)
    case 0
    with i show ?thesis by simp
  next
    case (Suc i')
    with i have "i' \<le> length cs" "ends_word_at cs word i'"
      by (simp_all add: ends_word_at_Cons)
    then show ?thesis by (auto simp: occurs_ending_word_iff)
  qed
next
  assume "ends_word_at (c # cs) word 0 \<or> occurs_ending_word cs word"
  then show "occurs_ending_word (c # cs) word"
  proof
    assume "ends_word_at (c # cs) word 0"
    then show ?thesis unfolding occurs_ending_word_iff by blast
  next
    assume "occurs_ending_word cs word"
    then obtain i where "i \<le> length cs" "ends_word_at cs word i"
      by (auto simp: occurs_ending_word_iff)
    then have "Suc i \<le> length (c # cs)" "ends_word_at (c # cs) word (Suc i)"
      by (simp_all add: ends_word_at_Cons)
    then show ?thesis unfolding occurs_ending_word_iff by blast
  qed
qed

lemma find_word_unfold:
  "find_word buffer feature =
     (case strstr buffer feature of
        None \<Rightarrow> False
      | Some k \<Rightarrow>
          if 0 < k \<and> \<not> isspace (buffer ! (k - 1)) then find_word (tl buffer) feature
          else if k + length feature < length buffer
                  \<and> \<not> isspace (buffer ! (k + length feature))
          then find_word (tl buffer) feature
          else True)"
  by (rule find_word.simps)

text \<open>
  The loop of \<open>check_feature\<close> accepts exactly the occurrences that end a word: the
  test on the character before the match never decides anything.
\<close>

lemma find_word_tests_the_end_only:
  assumes "feature \<noteq> []"
  shows "find_word buffer feature \<longleftrightarrow> occurs_ending_word buffer feature"
proof (induction buffer)
  case Nil
  have "strstr [] feature = None" using assms by simp
  moreover have "\<not> occurs_ending_word [] feature"
    using assms by (simp add: occurs_ending_word_def ends_word_at_def)
  ultimately show ?case by (subst find_word_unfold) simp
next
  case (Cons c cs)
  let ?b = "c # cs"
  show ?case
  proof (cases "strstr ?b feature")
    case None
    then have "\<not> ends_word_at ?b feature i" for i
      using strstr_None [of ?b feature i] by (simp add: ends_word_at_def)
    then have "\<not> occurs_ending_word ?b feature"
      by (simp add: occurs_ending_word_iff)
    with None show ?thesis by (subst find_word_unfold) simp
  next
    case (Some k)
    from strstr_Some [OF Some]
    have occ: "prefix feature (drop k ?b)" and kle: "k \<le> length ?b"
      and first: "\<forall>j<k. \<not> prefix feature (drop j ?b)" by simp_all
    from occ have "length feature \<le> length (drop k ?b)" by (rule prefix_length_le)
    with kle have fits: "k + length feature \<le> length ?b" by simp
    let ?skip = "(0 < k \<and> \<not> isspace (?b ! (k - 1)))
                 \<or> (k + length feature < length ?b \<and> \<not> isspace (?b ! (k + length feature)))"
    show ?thesis
    proof (cases ?skip)
      case True
      then have step: "find_word ?b feature = find_word cs feature"
        using Some by (subst find_word_unfold) auto
      have "\<not> ends_word_at ?b feature 0"
      proof (cases "0 < k")
        case True
        with first have "\<not> prefix feature (drop 0 ?b)" by blast
        then show ?thesis by (simp add: ends_word_at_def)
      next
        case False
        with \<open>?skip\<close> show ?thesis by (auto simp: ends_word_at_def)
      qed
      then have "occurs_ending_word ?b feature = occurs_ending_word cs feature"
        by (simp add: occurs_ending_word_Cons)
      with step Cons.IH show ?thesis by simp
    next
      case False
      then have "find_word ?b feature"
        using Some by (subst find_word_unfold) auto
      moreover have "ends_word_at ?b feature k"
        using False occ fits unfolding ends_word_at_def by (simp only: simp_thms) linarith
      then have "occurs_ending_word ?b feature"
        using kle unfolding occurs_ending_word_iff by blast
      ultimately show ?thesis by simp
    qed
  qed
qed

lemma check_feature_tests_the_end_only:
  assumes "feature \<noteq> []"
  shows "check_feature line feature
         \<longleftrightarrow> take 16 line = ''ASEs implemented''
             \<and> occurs_ending_word (dropWhile isspace (drop 16 line)) feature"
  using assms
  by (simp add: check_feature_def strncmp_eq_def find_word_tests_the_end_only)

text \<open>
  One half of the claimed equivalence does hold: a whole-word occurrence is found, as
  long as the feature name does not itself begin with a space (the spaces after the key
  phrase are skipped).
\<close>

lemma whole_word_is_found:
  assumes "feature \<noteq> []" and "\<not> isspace (hd feature)"
    and "spec_check_feature line feature"
  shows "check_feature line feature"
proof -
  define rest where "rest = drop 16 line"
  define j where "j = length (takeWhile isspace rest)"
  from assms(3) have key: "take 16 line = ''ASEs implemented''"
    and "occurs_as_whole_word rest feature"
    by (simp_all add: spec_check_feature_def rest_def)
  then obtain i where w: "whole_word_at rest feature i"
    by (auto simp: occurs_as_whole_word_def list_ex_iff)
  then have occ: "take (length feature) (drop i rest) = feature"
    and fits: "i + length feature \<le> length rest"
    and right: "i + length feature = length rest \<or> isspace (rest ! (i + length feature))"
    by (simp_all add: whole_word_at_def)
  have dw: "dropWhile isspace rest = drop j rest"
    unfolding j_def by (rule dropWhile_eq_drop)
  have ilt: "i < length rest" using fits assms(1) by (cases feature) auto
  have "rest ! i = hd (drop i rest)" using ilt by (simp add: hd_drop_conv_nth)
  also have "\<dots> = hd feature"
    using occ assms(1) by (metis hd_take length_greater_0_conv)
  finally have nonspace: "\<not> isspace (rest ! i)" using assms(2) by simp
  have "j \<le> i"
  proof (rule ccontr)
    assume "\<not> j \<le> i"
    then have "i < length (takeWhile isspace rest)" by (simp add: j_def)
    then have "isspace (takeWhile isspace rest ! i)"
      using nth_mem set_takeWhileD by fastforce
    moreover have "takeWhile isspace rest ! i = rest ! i"
      using \<open>i < length (takeWhile isspace rest)\<close> by (rule takeWhile_nth)
    ultimately show False using nonspace by simp
  qed
  have jle: "j \<le> length rest" using \<open>j \<le> i\<close> ilt by simp
  have "prefix feature (drop i rest)"
    using occ by (metis take_is_prefix)
  then have p: "prefix feature (drop (i - j) (drop j rest))"
    using \<open>j \<le> i\<close> by simp
  have len: "length (drop j rest) = length rest - j" by simp
  have nth: "drop j rest ! (i - j + length feature) = rest ! (i + length feature)"
    if "i + length feature < length rest"
    using that \<open>j \<le> i\<close> by (simp add: add.commute add.left_commute)
  have "ends_word_at (drop j rest) feature (i - j)"
  proof (cases "i + length feature = length rest")
    case True
    with p \<open>j \<le> i\<close> show ?thesis by (simp add: ends_word_at_def)
  next
    case False
    with fits right have lt: "i + length feature < length rest"
      and sp: "isspace (rest ! (i + length feature))" by simp_all
    from lt \<open>j \<le> i\<close> have "i - j + length feature < length (drop j rest)" by simp
    with p nth [OF lt] sp show ?thesis by (simp add: ends_word_at_def)
  qed
  moreover have "i - j \<le> length (drop j rest)" using ilt by simp
  ultimately have "occurs_ending_word (drop j rest) feature"
    unfolding occurs_ending_word_iff by blast
  with key dw show ?thesis
    using assms(1) by (simp add: check_feature_tests_the_end_only rest_def)
qed

lemma check_feature_second_token:
  "check_feature ''ASEs implemented: loongson-mmix loongson-mmi'' ''loongson-mmi''"
  by (simp add: check_feature_def find_word.simps strncmp_eq_def isspace_def)

lemma check_feature_longer_token_only:
  "\<not> check_feature ''ASEs implemented: loongson-mmix'' ''loongson-mmi''"
  by (simp add: check_feature_def find_word.simps strncmp_eq_def isspace_def)

text \<open>
  C1 does not hold of the code. The claim is that \<open>check_feature\<close> reports
  \<open>loongson-mmi\<close> exactly when the line begins with \<open>ASEs implemented\<close> and the rest
  holds \<open>loongson-mmi\<close> as a whole word. On the line below the only occurrence follows
  the character \<open>x\<close>, yet \<open>check_feature\<close> returns \<open>TRUE\<close>: each rejected match
  advances \<open>buffer\<close> by one, and once \<open>buffer\<close> has reached the match itself the
  test \<open>p > buffer\<close> no longer looks at the character before it.
\<close>

theorem check_feature_accepts_word_after_nonspace:
  "check_feature ''ASEs implemented: xloongson-mmi'' ''loongson-mmi''
   \<and> \<not> spec_check_feature ''ASEs implemented: xloongson-mmi'' ''loongson-mmi''"
  by (simp add: check_feature_def find_word.simps strncmp_eq_def isspace_def
      spec_check_feature_def occurs_as_whole_word_def whole_word_at_def)

text \<open>
  C9. Whatever the buffer holds, \<open>check_feature\<close> with an empty feature string returns
  \<open>FALSE\<close>, also on a line that begins with the key phrase.
\<close>

theorem check_feature_empty_feature:
  "check_feature buffer [] = False
   \<and> check_feature (''ASEs implemented'' @ rest) [] = False"
  by (simp add: check_feature_def)

subsection \<open>Reading lines\<close>

lemma read_line_length: "length (read_line k cs) \<le> length cs"
  by (induction k cs rule: read_line.induct) simp_all

lemma read_line_nonempty: "0 < k \<Longrightarrow> cs \<noteq> [] \<Longrightarrow> read_line k cs \<noteq> []"
  by (cases k; cases cs) simp_all

lemma fgets_Some_shorter:
  assumes "2 \<le> n" and "fgets n fd = (Some line, fd')"
  shows "length (unread fd') < length (unread fd)"
proof -
  let ?l = "read_line (n - 1) (unread fd)"
  from assms(2) have fd': "unread fd' = drop (length ?l) (unread fd)"
    and some: "\<not> (?l = [] \<and> length ?l < n - 1 \<and> newline \<notin> set ?l)"
    by (auto simp: fgets_def Let_def split: if_splits)
  have "unread fd \<noteq> []"
  proof
    assume "unread fd = []"
    then have "?l = []" using read_line_length [of "n - 1" "unread fd"] by simp
    with some assms(1) show False by simp
  qed
  with assms(1) have "?l \<noteq> []" by (intro read_line_nonempty) auto
  then have "0 < length ?l" by simp
  moreover have "length ?l \<le> length (unread fd)" by (rule read_line_length)
  ultimately show ?thesis unfolding fd' length_drop by arith
qed

lemma read_lines_total:
  assumes "2 \<le> n"
  shows "\<exists>ok m. read_lines mmi n fd s = Some (ok, m) \<and> (m = s \<or> m = s OR mmi)"
proof (induction "length (unread fd)" arbitrary: fd s rule: less_induct)
  case less
  obtain r fd' where fg: "fgets n fd = (r, fd')" by (cases "fgets n fd")
  show ?case
  proof (cases r)
    case None
    with fg show ?thesis by (subst read_lines.simps) auto
  next
    case (Some buffer)
    show ?thesis
    proof (cases "newline \<notin> set (c_string buffer) \<and> \<not> at_eof fd'")
      case True
      with fg Some show ?thesis by (subst read_lines.simps) auto
    next
      case False
      define s' where "s' = (if check_feature (c_string buffer) ''loongson-mmi''
                             then s OR mmi else s)"
      have step: "read_lines mmi n fd s = read_lines mmi n fd' s'"
        by (subst read_lines.simps)
           (simp only: fg Some prod.case option.case False if_False s'_def)
      from fg Some assms have "length (unread fd') < length (unread fd)"
        by (intro fgets_Some_shorter) auto
      from less [OF this] obtain ok m
        where res: "read_lines mmi n fd' s' = Some (ok, m)" and m: "m = s' \<or> m = s' OR mmi"
        by blast
      have "m = s \<or> m = s OR mmi"
        using m by (auto simp: s'_def or.assoc split: if_splits)
      with step res show ?thesis by simp
    qed
  qed
qed

subsection \<open>\<open>parse_proc_cpuinfo\<close>\<close>

lemma parse_proc_cpuinfo_resets:
  "parse_proc_cpuinfo mmi env bufsize s = parse_proc_cpuinfo mmi env bufsize 0"
  by (simp add: parse_proc_cpuinfo_def)

lemma parse_proc_cpuinfo_total:
  assumes "2 \<le> bufsize"
  shows "\<exists>ok m. parse_proc_cpuinfo mmi env bufsize s = Some (ok, m) \<and> (m = 0 \<or> m = mmi)"
proof (cases "bufsize \<in> malloc_fails env \<or> cpuinfo env = None")
  case True
  then show ?thesis by (auto simp: parse_proc_cpuinfo_def)
next
  case False
  then obtain bytes where "cpuinfo env = Some bytes" by auto
  with False have "parse_proc_cpuinfo mmi env bufsize s
                   = read_lines mmi bufsize \<lparr>unread = bytes, at_eof = False\<rparr> 0"
    by (simp add: parse_proc_cpuinfo_def)
  with read_lines_total [OF assms, of mmi "\<lparr>unread = bytes, at_eof = False\<rparr>" 0]
  show ?thesis by auto
qed

subsection \<open>The retry loop\<close>

lemma retry_loop_unfold:
  "retry_loop mmi env bufsize s =
     (case parse_proc_cpuinfo mmi env bufsize 0 of
        None \<Rightarrow> None
      | Some (parsed, m) \<Rightarrow>
          if parsed then Some m
          else if bufsize * 2 > SOMEWHAT_SANE_PROC_CPUINFO_SIZE_LIMIT then Some m
          else retry_loop mmi env (bufsize * 2) m)"
  by (subst retry_loop.simps) (simp only: parse_proc_cpuinfo_resets [of mmi env bufsize s])

lemma retry_loop_resets: "retry_loop mmi env bufsize s = retry_loop mmi env bufsize 0"
  by (simp only: retry_loop_unfold [of mmi env bufsize s] retry_loop_unfold [of mmi env bufsize 0])

lemma retry_loop_total:
  assumes "2 \<le> bufsize"
  shows "\<exists>m. retry_loop mmi env bufsize s = Some m \<and> (m = 0 \<or> m = mmi)"
  using assms
proof (induction "SOMEWHAT_SANE_PROC_CPUINFO_SIZE_LIMIT - bufsize"
        arbitrary: bufsize s rule: less_induct)
  case less
  from parse_proc_cpuinfo_total [OF less.prems] obtain ok m
    where p: "parse_proc_cpuinfo mmi env bufsize 0 = Some (ok, m)" and m: "m = 0 \<or> m = mmi"
    by blast
  show ?case
  proof (cases "ok \<or> bufsize * 2 > SOMEWHAT_SANE_PROC_CPUINFO_SIZE_LIMIT")
    case True
    with p m show ?thesis by (subst retry_loop_unfold) auto
  next
    case False
    then have step: "retry_loop mmi env bufsize s = retry_loop mmi env (bufsize * 2) m"
      using p by (subst retry_loop_unfold) simp
    from False less.prems
    have "SOMEWHAT_SANE_PROC_CPUINFO_SIZE_LIMIT - bufsize * 2
          < SOMEWHAT_SANE_PROC_CPUINFO_SIZE_LIMIT - bufsize"
      and "2 \<le> bufsize * 2" by arith+
    from less.hyps [OF this] step show ?thesis by simp
  qed
qed

lemma retry_loop_constant:
  assumes "\<And>b. bufsize \<le> b \<Longrightarrow> b \<le> SOMEWHAT_SANE_PROC_CPUINFO_SIZE_LIMIT
             \<Longrightarrow> \<exists>ok. parse_proc_cpuinfo mmi env b 0 = Some (ok, m)"
    and "0 < bufsize" and "bufsize \<le> SOMEWHAT_SANE_PROC_CPUINFO_SIZE_LIMIT"
  shows "retry_loop mmi env bufsize s = Some m"
  using assms
proof (induction "SOMEWHAT_SANE_PROC_CPUINFO_SIZE_LIMIT - bufsize"
        arbitrary: bufsize s rule: less_induct)
  case less
  from less.prems obtain ok where p: "parse_proc_cpuinfo mmi env bufsize 0 = Some (ok, m)"
    by blast
  show ?case
  proof (cases "ok \<or> bufsize * 2 > SOMEWHAT_SANE_PROC_CPUINFO_SIZE_LIMIT")
    case True
    with p show ?thesis by (subst retry_loop_unfold) auto
  next
    case False
    then have step: "retry_loop mmi env bufsize s = retry_loop mmi env (bufsize * 2) m"
      using p by (subst retry_loop_unfold) simp
    have "retry_loop mmi env (bufsize * 2) m = Some m"
    proof (rule less.hyps)
      show "SOMEWHAT_SANE_PROC_CPUINFO_SIZE_LIMIT - bufsize * 2
            < SOMEWHAT_SANE_PROC_CPUINFO_SIZE_LIMIT - bufsize"
        using False less.prems(2) by arith
      show "\<exists>ok. parse_proc_cpuinfo mmi env b 0 = Some (ok, m)"
        if "bufsize * 2 \<le> b" "b \<le> SOMEWHAT_SANE_PROC_CPUINFO_SIZE_LIMIT" for b
        using that less.prems(1) [of b] by simp
      show "0 < bufsize * 2" using less.prems(2) by simp
      show "bufsize * 2 \<le> SOMEWHAT_SANE_PROC_CPUINFO_SIZE_LIMIT" using False by simp
    qed
    with step show ?thesis by simp
  qed
qed

lemma retry_loop_after_failures:
  assumes "\<forall>j<k. attempt_fails mmi env (1024 * 2 ^ j)" and "k \<le> 10"
  shows "retry_loop mmi env 1024 0 = retry_loop mmi env (1024 * 2 ^ k) 0"
  using assms
proof (induction k)
  case 0
  show ?case by simp
next
  case (Suc k)
  then have ih: "retry_loop mmi env 1024 0 = retry_loop mmi env (1024 * 2 ^ k) 0"
    by simp
  from Suc.prems have "attempt_fails mmi env (1024 * 2 ^ k)" by simp
  then obtain m where p: "parse_proc_cpuinfo mmi env (1024 * 2 ^ k) 0 = Some (False, m)"
    by (auto simp: attempt_fails_def)
  from Suc.prems have "k < 10" by simp
  then have "(2::nat) ^ k \<le> 2 ^ 9" by (intro power_increasing) auto
  then have small: "\<not> 1024 * 2 ^ k * 2 > SOMEWHAT_SANE_PROC_CPUINFO_SIZE_LIMIT"
    by (simp add: SOMEWHAT_SANE_PROC_CPUINFO_SIZE_LIMIT_def)
  have "retry_loop mmi env (1024 * 2 ^ k) 0 = retry_loop mmi env (1024 * 2 ^ k * 2) m"
    using p small by (subst retry_loop_unfold) simp
  also have "\<dots> = retry_loop mmi env (1024 * 2 ^ k * 2) 0" by (rule retry_loop_resets)
  finally show ?case using ih by (simp add: mult.assoc mult.commute)
qed

subsection \<open>Lines that fit and lines that do not\<close>

lemma read_line_run:
  "c \<noteq> newline \<Longrightarrow> read_line k (replicate n c) = replicate (min k n) c"
proof (induction k arbitrary: n)
  case 0
  show ?case by simp
next
  case (Suc k)
  then show ?case by (cases n) simp_all
qed

lemma read_line_complete:
  "newline \<notin> set l \<Longrightarrow> length l < k \<Longrightarrow> read_line k (l @ newline # r) = l @ [newline]"
proof (induction l arbitrary: k)
  case Nil
  then show ?case by (cases k) simp_all
next
  case (Cons a l)
  then show ?case by (cases k) auto
qed

lemma read_lines_complete_line:
  assumes "newline \<notin> set l" and "NUL \<notin> set l" and "length l + 2 \<le> n"
  shows "read_lines mmi n \<lparr>unread = l @ newline # r, at_eof = e\<rparr> s
         = read_lines mmi n \<lparr>unread = r, at_eof = e\<rparr>
             (if check_feature (l @ [newline]) ''loongson-mmi'' then s OR mmi else s)"
proof -
  from assms have rl: "read_line (n - Suc 0) (l @ newline # r) = l @ [newline]"
    by (intro read_line_complete) auto
  have fg: "fgets n \<lparr>unread = l @ newline # r, at_eof = e\<rparr>
            = (Some (l @ [newline]), \<lparr>unread = r, at_eof = e\<rparr>)"
    by (simp add: fgets_def Let_def rl)
  have cs: "c_string (l @ [newline]) = l @ [newline]"
    using assms(2) by (auto simp: c_string_def newline_def NUL_def)
  have c: "\<not> (newline \<notin> set (l @ [newline]) \<and> \<not> e)" by simp
  show ?thesis
    by (subst read_lines.simps)
       (simp only: fg prod.case option.case stream.simps cs c simp_thms if_False)
qed

lemma read_lines_long_line:
  assumes "c \<noteq> newline" and "2 \<le> n" and "n - 1 \<le> k"
  shows "read_lines mmi n \<lparr>unread = replicate k c, at_eof = False\<rparr> s = Some (False, s)"
proof -
  from assms have rl: "read_line (n - Suc 0) (replicate k c) = replicate (n - Suc 0) c"
    by (simp add: read_line_run min_def)
  have "c \<in> set (replicate (n - Suc 0) c)" using assms(2) by simp
  then have ne: "replicate (n - Suc 0) c \<noteq> []" by auto
  obtain fd' where fg: "fgets n \<lparr>unread = replicate k c, at_eof = False\<rparr>
                        = (Some (replicate (n - Suc 0) c), fd')"
    and eof: "\<not> at_eof fd'"
    using ne by (simp add: fgets_def Let_def rl)
  have "set (c_string (replicate (n - Suc 0) c)) \<subseteq> {c}"
    unfolding c_string_def using set_takeWhileD by fastforce
  with assms(1) have nl: "newline \<notin> set (c_string (replicate (n - Suc 0) c))" by auto
  from nl eof have c: "newline \<notin> set (c_string (replicate (n - Suc 0) c)) \<and> \<not> at_eof fd'"
    by simp
  show ?thesis
    by (subst read_lines.simps) (simp only: fg prod.case option.case c simp_thms if_True)
qed

lemma long_line_env_fails:
  assumes "2 \<le> n" and "n \<le> SOMEWHAT_SANE_PROC_CPUINFO_SIZE_LIMIT"
  shows "parse_proc_cpuinfo mmi long_line_env n 0 = Some (False, 0)"
proof -
  have "n - 1 \<le> 1048576"
    using assms(2) by (simp add: SOMEWHAT_SANE_PROC_CPUINFO_SIZE_LIMIT_def)
  with assms(1)
  have "read_lines mmi n \<lparr>unread = replicate 1048576 CHR ''x'', at_eof = False\<rparr> 0
        = Some (False, 0)"
    by (intro read_lines_long_line) (simp_all add: newline_def)
  then show ?thesis by (simp add: parse_proc_cpuinfo_def long_line_env_def)
qed

lemma feature_line_accepted:
  "check_feature (''ASEs implemented: loongson-mmi'' @ [newline]) ''loongson-mmi''"
  by (simp add: check_feature_def find_word.simps strncmp_eq_def isspace_def newline_def)

lemma feature_then_long_line_fails:
  assumes "cpuinfo env
           = Some (''ASEs implemented: loongson-mmi'' @ newline # replicate 1048576 CHR ''x'')"
    and "n \<notin> malloc_fails env"
    and "32 \<le> n" and "n \<le> SOMEWHAT_SANE_PROC_CPUINFO_SIZE_LIMIT"
  shows "parse_proc_cpuinfo mmi env n 0 = Some (False, mmi)"
proof -
  let ?l = "''ASEs implemented: loongson-mmi''"
  have "n - 1 \<le> 1048576"
    using assms(4) by (simp add: SOMEWHAT_SANE_PROC_CPUINFO_SIZE_LIMIT_def)
  with assms(3)
  have long: "read_lines mmi n \<lparr>unread = replicate 1048576 CHR ''x'', at_eof = False\<rparr> (0 OR mmi)
              = Some (False, 0 OR mmi)"
    by (intro read_lines_long_line) (simp_all add: newline_def)
  have "read_lines mmi n \<lparr>unread = ?l @ newline # replicate 1048576 CHR ''x'', at_eof = False\<rparr> 0
        = read_lines mmi n \<lparr>unread = replicate 1048576 CHR ''x'', at_eof = False\<rparr>
            (if check_feature (?l @ [newline]) ''loongson-mmi'' then 0 OR mmi else 0)"
    using assms(3) by (intro read_lines_complete_line) (simp_all add: newline_def NUL_def)
  also have "\<dots> = Some (False, 0 OR mmi)"
    by (simp only: feature_line_accepted if_True long)
  finally show ?thesis
    using assms(1,2) by (simp add: parse_proc_cpuinfo_def)
qed

lemma doubled_sizes_in_range:
  assumes "j \<le> 10"
  shows "32 \<le> (1024::nat) * 2 ^ j"
    and "(1024::nat) * 2 ^ j \<le> SOMEWHAT_SANE_PROC_CPUINFO_SIZE_LIMIT"
proof -
  have "(2::nat) ^ j \<le> 2 ^ 10" using assms by (intro power_increasing) auto
  then show "(1024::nat) * 2 ^ j \<le> SOMEWHAT_SANE_PROC_CPUINFO_SIZE_LIMIT"
    by (simp add: SOMEWHAT_SANE_PROC_CPUINFO_SIZE_LIMIT_def)
  have "(1::nat) \<le> 2 ^ j" by simp
  then show "32 \<le> (1024::nat) * 2 ^ j" by linarith
qed

subsection \<open>A file that does not name the feature\<close>

lemma strstr_None_iff: "strstr h n = None \<longleftrightarrow> \<not> sublist n h"
proof
  assume none: "strstr h n = None"
  show "\<not> sublist n h"
  proof
    assume "sublist n h"
    then obtain ps ss where "h = ps @ n @ ss" by (auto simp: sublist_def)
    then have "prefix n (drop (length ps) h)" by simp
    with strstr_None [OF none] show False by blast
  qed
next
  assume no: "\<not> sublist n h"
  show "strstr h n = None"
  proof (rule ccontr)
    assume "strstr h n \<noteq> None"
    then obtain k where "strstr h n = Some k" by auto
    from strstr_Some [OF this] have "prefix n (drop k h)" by simp
    then have "sublist n (drop k h)" by (rule prefix_imp_sublist)
    then have "sublist n h" using sublist_drop sublist_order.order_trans by blast
    with no show False by simp
  qed
qed

lemma check_feature_sublist:
  assumes "check_feature buffer feature"
  shows "sublist feature buffer"
proof -
  from assms have ne: "feature \<noteq> []" by (auto simp: check_feature_def)
  let ?rest = "dropWhile isspace (drop 16 buffer)"
  from assms ne have "occurs_ending_word ?rest feature"
    by (simp add: check_feature_tests_the_end_only)
  then obtain i where "prefix feature (drop i ?rest)"
    by (auto simp: occurs_ending_word_iff ends_word_at_def)
  then have "sublist feature (drop i ?rest)" by (rule prefix_imp_sublist)
  also have "sublist (drop i ?rest) ?rest" by (rule sublist_drop)
  also have "sublist ?rest (drop 16 buffer)" by (rule sublist_dropWhile)
  also have "sublist (drop 16 buffer) buffer" by (rule sublist_drop)
  finally show ?thesis .
qed

lemma read_line_prefix: "prefix (read_line k cs) cs"
  by (induction k cs rule: read_line.induct) simp_all

lemma fgets_sublists:
  assumes "fgets n fd = (Some buffer, fd')"
  shows "sublist (c_string buffer) (unread fd)" and "sublist (unread fd') (unread fd)"
proof -
  from assms have b: "buffer = read_line (n - 1) (unread fd)"
    and u: "unread fd' = drop (length buffer) (unread fd)"
    by (auto simp: fgets_def Let_def split: if_splits)
  have "sublist (c_string buffer) buffer" unfolding c_string_def by (rule sublist_takeWhile)
  also have "sublist buffer (unread fd)"
    unfolding b by (rule prefix_imp_sublist) (rule read_line_prefix)
  finally show "sublist (c_string buffer) (unread fd)" .
  show "sublist (unread fd') (unread fd)" unfolding u by (rule sublist_drop)
qed

lemma read_lines_feature_absent:
  assumes "2 \<le> n" and "\<not> sublist ''loongson-mmi'' (unread fd)"
  shows "\<exists>ok. read_lines mmi n fd s = Some (ok, s)"
  using assms(2)
proof (induction "length (unread fd)" arbitrary: fd rule: less_induct)
  case less
  obtain r fd' where fg: "fgets n fd = (r, fd')" by (cases "fgets n fd")
  show ?case
  proof (cases r)
    case None
    with fg show ?thesis by (subst read_lines.simps) auto
  next
    case (Some buffer)
    show ?thesis
    proof (cases "newline \<notin> set (c_string buffer) \<and> \<not> at_eof fd'")
      case True
      with fg Some show ?thesis by (subst read_lines.simps) auto
    next
      case False
      from fg Some have sub: "sublist (c_string buffer) (unread fd)"
        "sublist (unread fd') (unread fd)"
        by (auto dest: fgets_sublists)
      have "\<not> check_feature (c_string buffer) ''loongson-mmi''"
      proof
        assume "check_feature (c_string buffer) ''loongson-mmi''"
        then have "sublist ''loongson-mmi'' (c_string buffer)" by (rule check_feature_sublist)
        with sub(1) have "sublist ''loongson-mmi'' (unread fd)"
          using sublist_order.order_trans by blast
        with less.prems show False by simp
      qed
      then have step: "read_lines mmi n fd s = read_lines mmi n fd' s"
        by (subst read_lines.simps)
           (simp only: fg Some prod.case option.case False if_False)
      have absent: "\<not> sublist ''loongson-mmi'' (unread fd')"
        using sub(2) less.prems sublist_order.order_trans by blast
      from fg Some assms(1) have "length (unread fd') < length (unread fd)"
        by (intro fgets_Some_shorter) auto
      from less.hyps [OF this absent] step show ?thesis by simp
    qed
  qed
qed

lemma parse_proc_cpuinfo_feature_absent:
  assumes "2 \<le> bufsize"
    and "\<And>bytes. cpuinfo env = Some bytes \<Longrightarrow> strstr bytes ''loongson-mmi'' = None"
  shows "\<exists>ok. parse_proc_cpuinfo mmi env bufsize 0 = Some (ok, 0)"
proof (cases "bufsize \<in> malloc_fails env \<or> cpuinfo env = None")
  case True
  then show ?thesis by (auto simp: parse_proc_cpuinfo_def)
next
  case False
  then obtain bytes where b: "cpuinfo env = Some bytes" by auto
  with assms(2) have "\<not> sublist ''loongson-mmi'' bytes" by (simp add: strstr_None_iff)
  then have "\<exists>ok. read_lines mmi bufsize \<lparr>unread = bytes, at_eof = False\<rparr> 0 = Some (ok, 0)"
    using assms(1) by (intro read_lines_feature_absent) simp_all
  with False b show ?thesis by (simp add: parse_proc_cpuinfo_def)
qed

lemma retry_loop_feature_absent:
  assumes "\<And>bytes. cpuinfo env = Some bytes \<Longrightarrow> strstr bytes ''loongson-mmi'' = None"
  shows "retry_loop mmi env 1024 0 = Some 0"
proof (rule retry_loop_constant)
  show "\<exists>ok. parse_proc_cpuinfo mmi env b 0 = Some (ok, 0)" if "1024 \<le> b" for b
    using that assms by (intro parse_proc_cpuinfo_feature_absent) simp_all
qed (simp_all add: SOMEWHAT_SANE_PROC_CPUINFO_SIZE_LIMIT_def)

subsection \<open>The claims about the detector\<close>

text \<open>
  C2, as stated, fails: with the feature line first and then a line that no buffer up to
  the ceiling can hold, each of the eleven attempts returns \<open>FALSE\<close> after it has set
  the bit, and the mask that \<open>jpeg_simd_cpu_support\<close> returns past the ceiling is the
  one the last attempt left, not zero. (\<open>0x100\<close> stands for \<open>JSIMD_MMI\<close>.)
\<close>

theorem ceiling_mask_not_zero_counterexample:
  "list_all (attempt_fails 0x100 feature_then_long_line_env)
     [1024, 2048, 4096, 8192, 16384, 32768, 65536, 131072, 262144, 524288, 1048576]
   \<and> jpeg_simd_cpu_support 0x100 Linux feature_then_long_line_env = Some 0x100
   \<and> jpeg_simd_cpu_support 0x100 Linux feature_then_long_line_env \<noteq> Some 0"
proof -
  have fails: "parse_proc_cpuinfo 0x100 feature_then_long_line_env n 0 = Some (False, 0x100)"
    if "32 \<le> n" "n \<le> SOMEWHAT_SANE_PROC_CPUINFO_SIZE_LIMIT" for n
    using that by (intro feature_then_long_line_fails) (simp_all add: feature_then_long_line_env_def)
  have "attempt_fails 0x100 feature_then_long_line_env n"
    if "32 \<le> n" "n \<le> SOMEWHAT_SANE_PROC_CPUINFO_SIZE_LIMIT" for n
    using fails [OF that] by (simp add: attempt_fails_def)
  then have all: "list_all (attempt_fails 0x100 feature_then_long_line_env)
     [1024, 2048, 4096, 8192, 16384, 32768, 65536, 131072, 262144, 524288, 1048576]"
    by (simp add: SOMEWHAT_SANE_PROC_CPUINFO_SIZE_LIMIT_def)
  have "retry_loop 0x100 feature_then_long_line_env 1024 0 = Some 0x100"
  proof (rule retry_loop_constant)
    show "\<exists>ok. parse_proc_cpuinfo 0x100 feature_then_long_line_env b 0 = Some (ok, 0x100)"
      if "1024 \<le> b" "b \<le> SOMEWHAT_SANE_PROC_CPUINFO_SIZE_LIMIT" for b
      using that fails [of b] by auto
  qed (simp_all add: SOMEWHAT_SANE_PROC_CPUINFO_SIZE_LIMIT_def)
  with all show ?thesis by simp
qed

text \<open>
  C2, amended. On Linux \<open>jpeg_simd_cpu_support\<close> starts with a buffer of 1024 bytes;
  after each attempt that returns \<open>FALSE\<close> it doubles the size and reads the file
  again from its start with a mask reset to zero, so that after \<open>k \<le> 10\<close> failed
  attempts the result is that of the attempt at \<open>1024 * 2 ^ k\<close> if that one succeeds.
  Once all eleven attempts up to 1 MiB have failed it stops, and returns no error but
  the mask the last attempt left, which is 0 or \<open>JSIMD_MMI\<close>; and the result is 0
  whenever the file does not contain the feature name at all.
\<close>

theorem retry_doubles_up_to_ceiling:
  "(k \<le> 10 \<and> (\<forall>j<k. attempt_fails mmi env (1024 * 2 ^ j))
      \<longrightarrow> jpeg_simd_cpu_support mmi Linux env = retry_loop mmi env (1024 * 2 ^ k) 0
          \<and> (parse_proc_cpuinfo mmi env (1024 * 2 ^ k) 0 = Some (True, m)
               \<longrightarrow> jpeg_simd_cpu_support mmi Linux env = Some m))
   \<and> ((\<forall>j\<le>10. attempt_fails mmi env (1024 * 2 ^ j))
      \<longrightarrow> jpeg_simd_cpu_support mmi Linux env
            = map_option snd (parse_proc_cpuinfo mmi env (1024 * 1024) 0)
          \<and> (jpeg_simd_cpu_support mmi Linux env = Some 0
               \<or> jpeg_simd_cpu_support mmi Linux env = Some mmi))
   \<and> ((\<forall>bytes. cpuinfo env = Some bytes \<longrightarrow> strstr bytes ''loongson-mmi'' = None)
      \<longrightarrow> jpeg_simd_cpu_support mmi Linux env = Some 0)"
proof (intro conjI impI)
  assume a: "k \<le> 10 \<and> (\<forall>j<k. attempt_fails mmi env (1024 * 2 ^ j))"
  then show eq: "jpeg_simd_cpu_support mmi Linux env = retry_loop mmi env (1024 * 2 ^ k) 0"
    using retry_loop_after_failures [of k mmi env] by simp
  assume "parse_proc_cpuinfo mmi env (1024 * 2 ^ k) 0 = Some (True, m)"
  then have "retry_loop mmi env (1024 * 2 ^ k) 0 = Some m"
    by (subst retry_loop_unfold) simp
  with eq show "jpeg_simd_cpu_support mmi Linux env = Some m" by simp
next
  assume a: "\<forall>j\<le>10. attempt_fails mmi env (1024 * 2 ^ j)"
  then have "\<forall>j<10. attempt_fails mmi env (1024 * 2 ^ j)" by simp
  then have eq: "jpeg_simd_cpu_support mmi Linux env = retry_loop mmi env (1024 * 2 ^ 10) 0"
    using retry_loop_after_failures [of 10 mmi env] by simp
  from a have "attempt_fails mmi env (1024 * 2 ^ 10)" by blast
  then obtain r where p: "parse_proc_cpuinfo mmi env (1024 * 1024) 0 = Some (False, r)"
    by (auto simp: attempt_fails_def)
  then have "retry_loop mmi env (1024 * 1024) 0 = Some r"
    by (subst retry_loop_unfold) (simp add: SOMEWHAT_SANE_PROC_CPUINFO_SIZE_LIMIT_def)
  with eq have res: "jpeg_simd_cpu_support mmi Linux env = Some r" by simp
  with p show "jpeg_simd_cpu_support mmi Linux env
               = map_option snd (parse_proc_cpuinfo mmi env (1024 * 1024) 0)"
    by simp
  from parse_proc_cpuinfo_total [of "1024 * 1024" mmi env 0] p have "r = 0 \<or> r = mmi"
    by simp
  with res show "jpeg_simd_cpu_support mmi Linux env = Some 0
                 \<or> jpeg_simd_cpu_support mmi Linux env = Some mmi"
    by simp
next
  assume "\<forall>bytes. cpuinfo env = Some bytes \<longrightarrow> strstr bytes ''loongson-mmi'' = None"
  then have "retry_loop mmi env 1024 0 = Some 0"
    by (intro retry_loop_feature_absent) blast
  then show "jpeg_simd_cpu_support mmi Linux env = Some 0" by simp
qed

theorem retry_doubles_up_to_ceiling_witness:
  "list_all (attempt_fails 0x100 long_line_env)
     [1024, 2048, 4096, 8192, 16384, 32768, 65536, 131072, 262144, 524288, 1048576]
   \<and> parse_proc_cpuinfo 0x100 long_line_env (1024 * 1024) 0 = Some (False, 0)
   \<and> strstr (replicate 1048576 CHR ''x'') ''loongson-mmi'' = None
   \<and> jpeg_simd_cpu_support 0x100 Linux long_line_env = Some 0"
proof -
  have absent: "strstr (replicate 1048576 CHR ''x'') ''loongson-mmi'' = None"
  proof -
    have "\<not> sublist ''loongson-mmi'' (replicate 1048576 CHR ''x'')"
    proof
      assume "sublist ''loongson-mmi'' (replicate 1048576 CHR ''x'')"
      then have "set ''loongson-mmi'' \<subseteq> set (replicate 1048576 CHR ''x'')"
        by (rule set_mono_sublist)
      then show False by simp
    qed
    then show ?thesis using strstr_None_iff by blast
  qed
  have fails: "parse_proc_cpuinfo 0x100 long_line_env n 0 = Some (False, 0)"
    if "2 \<le> n" "n \<le> SOMEWHAT_SANE_PROC_CPUINFO_SIZE_LIMIT" for n
    using that by (rule long_line_env_fails)
  then have att: "attempt_fails 0x100 long_line_env n"
    if "2 \<le> n" "n \<le> SOMEWHAT_SANE_PROC_CPUINFO_SIZE_LIMIT" for n
    using that by (simp add: attempt_fails_def)
  have all: "\<forall>j\<le>10. attempt_fails 0x100 long_line_env (1024 * 2 ^ j)"
    using doubled_sizes_in_range by (auto intro!: att)
  have l: "list_all (attempt_fails 0x100 long_line_env)
     [1024, 2048, 4096, 8192, 16384, 32768, 65536, 131072, 262144, 524288, 1048576]"
    using att by (simp add: SOMEWHAT_SANE_PROC_CPUINFO_SIZE_LIMIT_def)
  have last: "parse_proc_cpuinfo 0x100 long_line_env (1024 * 1024) 0 = Some (False, 0)"
    by (rule fails) (simp_all add: SOMEWHAT_SANE_PROC_CPUINFO_SIZE_LIMIT_def)
  from retry_doubles_up_to_ceiling [of 10 "0x100" long_line_env 0] all
  have "jpeg_simd_cpu_support 0x100 Linux long_line_env
        = map_option snd (parse_proc_cpuinfo 0x100 long_line_env (1024 * 1024) 0)"
    by blast
  with last have "jpeg_simd_cpu_support 0x100 Linux long_line_env = Some 0"
    by (simp only: option.map snd_conv)
  with l last absent show ?thesis by (intro conjI)
qed

text \<open>
  C7. If \<open>/proc/cpuinfo\<close> cannot be opened, \<open>parse_proc_cpuinfo\<close> (which opens it
  once its buffer is allocated) returns \<open>TRUE\<close> with the mask set to zero, and
  \<open>jpeg_simd_cpu_support\<close> returns the zero mask, whether or not allocations fail.
\<close>

theorem unopenable_cpuinfo_gives_zero:
  assumes "cpuinfo env = None"
  shows "(bufsize \<notin> malloc_fails env
            \<longrightarrow> parse_proc_cpuinfo mmi env bufsize s = Some (True, 0))
         \<and> jpeg_simd_cpu_support mmi Linux env = Some 0"
proof -
  have "retry_loop mmi env 1024 0 = Some 0"
  proof (rule retry_loop_constant)
    show "\<exists>ok. parse_proc_cpuinfo mmi env b 0 = Some (ok, 0)" for b
      using assms by (auto simp: parse_proc_cpuinfo_def)
  qed (simp_all add: SOMEWHAT_SANE_PROC_CPUINFO_SIZE_LIMIT_def)
  then show ?thesis using assms by (simp add: parse_proc_cpuinfo_def)
qed

theorem unopenable_cpuinfo_gives_zero_witness:
  "cpuinfo no_cpuinfo_env = None \<and> 1024 \<notin> malloc_fails no_cpuinfo_env
   \<and> parse_proc_cpuinfo 0x100 no_cpuinfo_env 1024 0x100 = Some (True, 0)
   \<and> jpeg_simd_cpu_support 0x100 Linux no_cpuinfo_env = Some 0"
proof -
  have h: "cpuinfo no_cpuinfo_env = None" by (simp add: no_cpuinfo_env_def)
  have m: "1024 \<notin> malloc_fails no_cpuinfo_env" by (simp add: no_cpuinfo_env_def)
  from unopenable_cpuinfo_gives_zero [OF h, of 1024 "0x100" "0x100"] h m
  show ?thesis by simp
qed

text \<open>
  C8. Every value \<open>jpeg_simd_cpu_support\<close> returns is 0 or \<open>JSIMD_MMI\<close>, in each
  of the three builds, and it always returns. Every call of \<open>parse_proc_cpuinfo\<close>
  resets the mask to zero first, so its result does not depend on the mask it is
  handed; hence neither does the result of the retries that follow a failed attempt:
  the bits that attempt left are gone.
\<close>

theorem mask_zero_or_mmi_and_reset_by_each_attempt:
  "(jpeg_simd_cpu_support mmi bld env = Some 0 \<or> jpeg_simd_cpu_support mmi bld env = Some mmi)
   \<and> parse_proc_cpuinfo mmi env bufsize s = parse_proc_cpuinfo mmi env bufsize 0
   \<and> retry_loop mmi env bufsize s = retry_loop mmi env bufsize 0
   \<and> (parse_proc_cpuinfo mmi env bufsize s = Some (False, m)
        \<and> bufsize * 2 \<le> SOMEWHAT_SANE_PROC_CPUINFO_SIZE_LIMIT
        \<longrightarrow> retry_loop mmi env bufsize s = retry_loop mmi env (bufsize * 2) 0)"
proof (intro conjI impI)
  show "jpeg_simd_cpu_support mmi bld env = Some 0 \<or> jpeg_simd_cpu_support mmi bld env = Some mmi"
  proof (cases bld)
    case Linux
    with retry_loop_total [of 1024 mmi env 0] show ?thesis by auto
  qed simp_all
  show "parse_proc_cpuinfo mmi env bufsize s = parse_proc_cpuinfo mmi env bufsize 0"
    by (rule parse_proc_cpuinfo_resets)
  show "retry_loop mmi env bufsize s = retry_loop mmi env bufsize 0"
    by (rule retry_loop_resets)
  assume a: "parse_proc_cpuinfo mmi env bufsize s = Some (False, m)
             \<and> bufsize * 2 \<le> SOMEWHAT_SANE_PROC_CPUINFO_SIZE_LIMIT"
  then have "parse_proc_cpuinfo mmi env bufsize 0 = Some (False, m)"
    by (simp add: parse_proc_cpuinfo_resets [of mmi env bufsize s])
  with a have "retry_loop mmi env bufsize s = retry_loop mmi env (bufsize * 2) m"
    by (subst retry_loop_unfold) simp
  also have "\<dots> = retry_loop mmi env (bufsize * 2) 0" by (rule retry_loop_resets)
  finally show "retry_loop mmi env bufsize s = retry_loop mmi env (bufsize * 2) 0" .
qed

theorem mask_zero_or_mmi_and_reset_by_each_attempt_witness:
  "parse_proc_cpuinfo 0x100 scarce_memory_env 1024 0 = Some (False, 0x100)
   \<and> 1024 * 2 \<le> SOMEWHAT_SANE_PROC_CPUINFO_SIZE_LIMIT
   \<and> retry_loop 0x100 scarce_memory_env 1024 0 = retry_loop 0x100 scarce_memory_env 2048 0
   \<and> jpeg_simd_cpu_support 0x100 Linux scarce_memory_env = Some 0"
proof -
  have p: "parse_proc_cpuinfo 0x100 scarce_memory_env 1024 0 = Some (False, 0x100)"
    by (rule feature_then_long_line_fails)
       (simp_all add: scarce_memory_env_def SOMEWHAT_SANE_PROC_CPUINFO_SIZE_LIMIT_def)
  have l: "(1024::nat) * 2 \<le> SOMEWHAT_SANE_PROC_CPUINFO_SIZE_LIMIT"
    by (simp add: SOMEWHAT_SANE_PROC_CPUINFO_SIZE_LIMIT_def)
  from mask_zero_or_mmi_and_reset_by_each_attempt
         [of "0x100" Linux scarce_memory_env 1024 0 "0x100"] p l
  have step: "retry_loop 0x100 scarce_memory_env 1024 0
              = retry_loop 0x100 scarce_memory_env 2048 0"
    by simp
  have "retry_loop 0x100 scarce_memory_env 2048 0 = Some 0"
  proof (rule retry_loop_constant)
    show "\<exists>ok. parse_proc_cpuinfo 0x100 scarce_memory_env b 0 = Some (ok, 0)"
      if "2048 \<le> b" for b
      using that by (auto simp: parse_proc_cpuinfo_def scarce_memory_env_def)
  qed (simp_all add: SOMEWHAT_SANE_PROC_CPUINFO_SIZE_LIMIT_def)
  with step p l show ?thesis by simp
qed

end
